theory Spec2Isabelle
  imports Main "HOL-Library.Multiset" "HOL-Library.AList"
begin

section \<open>The word-count example (examples/wordcount/wordcount.py)\<close>

text \<open>
  The example is Python 2 (it imports \<^verbatim>\<open>urllib2\<close>): \<^verbatim>\<open>str\<close> is a byte string, which
  is what \<^typ>\<open>string\<close> is here, integers are unbounded (\<^typ>\<open>int\<close>), and \<^verbatim>\<open>//\<close> is floor
  division, as \<open>div\<close> on \<^typ>\<open>int\<close> is.  Every exception a modelled statement can raise is
  a value of \<open>py_error\<close>, and a function that can raise returns \<open>py_error + 'a\<close>.
\<close>

datatype py_error = ZeroDivisionError | IndexError | TypeError | IOError

subsection \<open>split_partitions\<close>

text \<open>
  The inner \<^verbatim>\<open>while len(head) > 0\<close> loop of \<^verbatim>\<open>split_partitions\<close>.  \<^verbatim>\<open>head.pop()\<close> takes the
  last element of \<open>head\<close>; \<open>part\<close> is the list \<^verbatim>\<open>result[partition]\<close> being appended to.
  \<^verbatim>\<open>sizes[elem]\<close> raises \<^verbatim>\<open>IndexError\<close> when \<open>elem\<close> is out of range (\<open>elem\<close> is never
  negative here).  The loop returns the two lists it has built.
\<close>

function while_head ::
  "int list \<Rightarrow> int \<Rightarrow> nat list \<Rightarrow> int \<Rightarrow> nat list \<Rightarrow> nat list
     \<Rightarrow> py_error + (nat list \<times> nat list)" where
  "while_head sizes partition_size head cur_size part tail =
     (if length head > 0 then
        (if last head < length sizes then
           (if sizes ! (last head) \<le> partition_size - cur_size
            then while_head sizes partition_size (butlast head)
                   (cur_size + sizes ! (last head)) (part @ [last head]) tail
            else while_head sizes partition_size (butlast head)
                   cur_size part (tail @ [last head]))
         else Inl IndexError)
      else Inr (part, tail))"
  by pat_completeness auto
termination
  by (relation "measure (\<lambda>(sizes, partition_size, head, cur_size, part, tail). length head)")
     auto

declare while_head.simps [simp del]

text \<open>
  The loop \<^verbatim>\<open>for partition in range(len(result))\<close>: its first list argument is the
  remaining part of that range.  Each round starts with \<^verbatim>\<open>cur_size = 0\<close> and an empty
  \<open>tail\<close>, and ends with \<^verbatim>\<open>head, tail = list(reversed(tail)), []\<close>.  The lists of \<open>result\<close>
  are distinct objects (the comprehension builds a new \<^verbatim>\<open>[]\<close> for each), so appending to
  one of them is an update of \<open>result\<close> at that index.  The loop variable \<^verbatim>\<open>partition\<close>
  is \<open>partition_i\<close> here; \<^verbatim>\<open>result[partition]\<close> raises \<^verbatim>\<open>IndexError\<close> out of range.
\<close>

fun for_partition ::
  "int list \<Rightarrow> int \<Rightarrow> nat list \<Rightarrow> nat list \<Rightarrow> nat list list
     \<Rightarrow> py_error + (nat list \<times> nat list list)" where
  "for_partition sizes partition_size [] head result = Inr (head, result)"
| "for_partition sizes partition_size (partition_i # rest) head result =
     (if partition_i < length result then
        (case while_head sizes partition_size head 0 (result ! partition_i) [] of
           Inl e \<Rightarrow> Inl e
         | Inr (part, tail) \<Rightarrow>
             for_partition sizes partition_size rest (rev tail) (result[partition_i := part]))
      else Inl IndexError)"

text \<open>
  \<^verbatim>\<open>sorted(range(len(sizes)), key=lambda k: sizes[k])\<close> is a stable sort of the indices
  by their size, as \<^const>\<open>sort_key\<close> is.  \<^verbatim>\<open>range(num_partitions-1)\<close> is empty when
  \<open>num_partitions - 1\<close> is negative.
\<close>

definition split_partitions :: "int list \<Rightarrow> int \<Rightarrow> py_error + nat list list" where
  "split_partitions sizes num_partitions =
     (if num_partitions = 0 then Inl ZeroDivisionError
      else
        (let total_size = sum_list sizes;
             partition_size = (total_size + num_partitions - 1) div num_partitions;
             perm = sort_key (\<lambda>k. sizes ! k) [0..<length sizes];
             result = replicate (nat (num_partitions - 1)) []
         in (case for_partition sizes partition_size [0..<length result] perm result of
               Inl e \<Rightarrow> Inl e
             | Inr (head, result') \<Rightarrow> Inr (result' @ [head]))))"

subsection \<open>Python objects the example's functions return\<close>

text \<open>
  A \<^verbatim>\<open>dict\<close> whose values are integers is an association list with distinct keys; the
  order of the list is the order in which \<^verbatim>\<open>keys()\<close> yields the keys, which Python leaves
  unspecified.  \<^verbatim>\<open>Counter\<close> and \<^verbatim>\<open>defaultdict\<close> are subclasses of \<^verbatim>\<open>dict\<close>, so a dict
  object carries its class.  A function's return value is a \<open>pyobj\<close>: this keeps apart
  a value returned directly and a tuple of values.
\<close>

type_synonym 'k dict = "('k \<times> int) list"

datatype dict_class = DictC | DefaultDictC | CounterC

datatype 'k pyobj =
    PyStr string
  | PyInt int
  | PyDict dict_class "'k dict"
  | PyTuple "'k pyobj list"

datatype pytype = TStr | TInt | TDict

text \<open>\<^verbatim>\<open>isinstance(v, t)\<close> for the three types the signatures name; a tuple is none of them.\<close>

fun isinstance :: "'k pyobj \<Rightarrow> pytype \<Rightarrow> bool" where
  "isinstance (PyStr s) t = (t = TStr)"
| "isinstance (PyInt i) t = (t = TInt)"
| "isinstance (PyDict c d) t = (t = TDict)"
| "isinstance (PyTuple vs) t = False"


text \<open>The mapping a dict object stands for: what \<^verbatim>\<open>==\<close> between two dicts compares.\<close>

fun mapping_of :: "'k pyobj \<Rightarrow> ('k \<rightharpoonup> int)" where
  "mapping_of (PyDict c d) = map_of d"
| "mapping_of v = Map.empty"

text \<open>\<^verbatim>\<open>d.keys()\<close>, and \<^verbatim>\<open>d.get(key)\<close>, which is \<^verbatim>\<open>None\<close> for a key that is not in \<open>d\<close>.\<close>

definition keys :: "'k dict \<Rightarrow> 'k list" where
  "keys d = map fst d"

definition d_get :: "'k dict \<Rightarrow> 'k \<Rightarrow> int option" where
  "d_get d key = map_of d key"

text \<open>
  Reading \<^verbatim>\<open>result[key]\<close> from a \<^verbatim>\<open>defaultdict(int)\<close>, and \<^verbatim>\<open>self.get(elem, 0)\<close> on a
  \<^verbatim>\<open>Counter\<close>: a missing key reads as \<open>0\<close>.
\<close>

definition getitem0 :: "'k dict \<Rightarrow> 'k \<Rightarrow> int" where
  "getitem0 d key = (case map_of d key of None \<Rightarrow> 0 | Some v \<Rightarrow> v)"

text \<open>\<^verbatim>\<open>result[key] += v\<close> on a \<^verbatim>\<open>defaultdict(int)\<close>: read (a missing key as \<open>0\<close>), add, store.\<close>

definition iadd :: "'k dict \<Rightarrow> 'k \<Rightarrow> int \<Rightarrow> 'k dict" where
  "iadd result key v = AList.update key (getitem0 result key + v) result"

subsection \<open>The signatures given to the decorator\<close>

text \<open>
  \<^verbatim>\<open>@op.distributed(inputs, outputs)\<close> is given two lists of types; an entry is a type or
  \<^verbatim>\<open>None\<close>.  The decorator itself belongs to the runtime (\<^verbatim>\<open>orchpy\<close>), which is not part of
  the example; \<open>distributed\<close> only records the two lists.
\<close>

record fsig =
  inputs :: "pytype option list"
  outputs :: "pytype option list"

definition distributed :: "pytype option list \<Rightarrow> pytype option list \<Rightarrow> fsig" where
  "distributed ins outs = \<lparr>inputs = ins, outputs = outs\<rparr>"

definition load_textfile_sig :: fsig where
  "load_textfile_sig = distributed [Some TStr] [Some TStr, Some TInt]"



definition sum_by_key_sig :: fsig where
  "sum_by_key_sig = distributed [Some TDict, None] [Some TDict]"

definition sum_by_key_return_len_sig :: fsig where
  "sum_by_key_return_len_sig = distributed [Some TDict, None] [Some TInt]"

definition map_reduce_sig :: fsig where
  "map_reduce_sig = distributed [Some TStr, None] [Some TDict]"

definition map_reduce2_sig :: fsig where
  "map_reduce2_sig = distributed [Some TStr, None] [Some TInt]"


subsection \<open>load_textfile\<close>

text \<open>
  \<^verbatim>\<open>open(url, "r").read()\<close> reads the file system, which is the parameter \<open>files\<close>: a map
  from a path to the contents that \<^verbatim>\<open>read()\<close> returns.  Opening a path that is not there
  raises \<^verbatim>\<open>IOError\<close>.  \<^verbatim>\<open>len\<close> of a byte string is its number of bytes.
\<close>

definition load_textfile :: "(string \<rightharpoonup> string) \<Rightarrow> string \<Rightarrow> py_error + 'k pyobj" where
  "load_textfile files url =
     (case files url of
        None \<Rightarrow> Inl IOError
      | Some result \<Rightarrow> Inr (PyTuple [PyStr result, PyInt (int (length result))]))"

subsection \<open>count_words, count_words_fast\<close>

text \<open>
  \<^verbatim>\<open>data.split()\<close> with no argument splits a byte string at runs of whitespace and
  returns the words between them, none of them empty.  The whitespace bytes are tab, line
  feed, vertical tab, form feed, carriage return and space.  \<open>split_from data word\<close> scans
  \<open>data\<close> with the bytes of the current word in \<open>word\<close>.
\<close>

definition isspace :: "char \<Rightarrow> bool" where
  "isspace c =
     (c = CHR 0x09 \<or> c = CHR 0x0A \<or> c = CHR 0x0B \<or> c = CHR 0x0C \<or> c = CHR 0x0D \<or> c = CHR 0x20)"

fun split_from :: "string \<Rightarrow> string \<Rightarrow> string list" where
  "split_from [] word = (if word = [] then [] else [word])"
| "split_from (c # data) word =
     (if isspace c then (if word = [] then split_from data [] else word # split_from data [])
      else split_from data (word @ [c]))"

definition str_split :: "string \<Rightarrow> string list" where
  "str_split data = split_from data []"

text \<open>
  \<^verbatim>\<open>Counter.update(iterable)\<close> runs \<^verbatim>\<open>self[elem] = self.get(elem, 0) + 1\<close> for each element,
  and \<^verbatim>\<open>Counter(iterable)\<close> is that update of an empty counter.
\<close>

fun Counter_update :: "'k dict \<Rightarrow> 'k list \<Rightarrow> 'k dict" where
  "Counter_update c [] = c"
| "Counter_update c (elem # iterable) =
     Counter_update (AList.update elem (getitem0 c elem + 1) c) iterable"

definition Counter :: "'k list \<Rightarrow> 'k dict" where
  "Counter iterable = Counter_update [] iterable"

definition count_words :: "string \<Rightarrow> string pyobj" where
  "count_words data = (let word_list = str_split data in PyDict CounterC (Counter word_list))"

text \<open>
  \<^verbatim>\<open>for k in data: counter[k] += 1\<close>: iterating a string yields its characters, each a
  string of length one.
\<close>

fun for_k :: "string dict \<Rightarrow> string \<Rightarrow> string dict" where
  "for_k counter [] = counter"
| "for_k counter (k # data) = for_k (iadd counter [k] 1) data"

definition count_words_fast :: "string \<Rightarrow> string pyobj" where
  "count_words_fast data = PyDict DictC (for_k [] data)"

subsection \<open>sum_by_key, sum_by_key_return_len\<close>

text \<open>
  The inner loop \<^verbatim>\<open>for key in d.keys(): result[key] += d_get(key)\<close>.  Adding \<^verbatim>\<open>None\<close> to an
  integer raises \<^verbatim>\<open>TypeError\<close>.
\<close>

fun for_key :: "'k dict \<Rightarrow> 'k list \<Rightarrow> 'k dict \<Rightarrow> py_error + 'k dict" where
  "for_key d [] result = Inr result"
| "for_key d (key # ks) result =
     (case d_get d key of
        None \<Rightarrow> Inl TypeError
      | Some v \<Rightarrow> for_key d ks (iadd result key v))"

fun for_d :: "'k dict list \<Rightarrow> 'k dict \<Rightarrow> py_error + 'k dict" where
  "for_d [] result = Inr result"
| "for_d (d # dicts) result =
     (case for_key d (keys d) result of
        Inl e \<Rightarrow> Inl e
      | Inr result' \<Rightarrow> for_d dicts result')"

definition sum_by_key :: "'k dict list \<Rightarrow> py_error + 'k pyobj" where
  "sum_by_key dicts =
     (case for_d dicts [] of
        Inl e \<Rightarrow> Inl e
      | Inr result \<Rightarrow> Inr (PyDict DefaultDictC result))"


subsection \<open>sum_by_key and sum_by_key_return_len on dictionaries with values of any kind\<close>











subsection \<open>map_reduce, map_reduce2\<close>

text \<open>The loop \<^verbatim>\<open>for s in data: c.update(s.split())\<close>.\<close>

fun for_s :: "string dict \<Rightarrow> string list \<Rightarrow> string dict" where
  "for_s c [] = c"
| "for_s c (s # data) = for_s (Counter_update c (str_split s)) data"


definition map_reduce2 :: "string list \<Rightarrow> string pyobj" where
  "map_reduce2 data = (let c = for_s (Counter []) data in PyInt 1)"

section \<open>The runtime the example is written against\<close>

text \<open>
  Modelled from the spec: the type check of a call against a declared input signature
  (section 4.2) is part of the runtime, which is not in the example's source.  The spec
  says that a placeholder (\<^verbatim>\<open>None\<close>) in the last position means "repeat the previous type
  for zero or more additional trailing arguments"; a placeholder anywhere else has no
  meaning and is refused.  \<open>accepts sig args\<close> holds when the types of the arguments of
  a call, \<open>args\<close>, satisfy the signature.
\<close>

fun accepts :: "pytype option list \<Rightarrow> pytype list \<Rightarrow> bool" where
  "accepts [] args = (args = [])"
| "accepts [Some t, None] args = (args \<noteq> [] \<and> list_all (\<lambda>a. a = t) args)"
| "accepts (Some t # sig) args =
     (case args of [] \<Rightarrow> False | a # rest \<Rightarrow> a = t \<and> accepts sig rest)"
| "accepts (None # sig) args = False"

text \<open>
  Modelled from the spec: the Object Store (section 4.1) is part of the runtime, which is
  not in the example's source.  The spec's contract is: \<^verbatim>\<open>put(objectId, value)\<close> fails with
  \<^verbatim>\<open>DuplicateWriteError\<close> if \<open>objectId\<close> already has a value.  The store maps an object
  identifier to the value it has, if it has one; \<open>put\<close> returns the error, if any, and
  the store after the call.
\<close>

datatype store_error = DuplicateWriteError

type_synonym ('i, 'v) object_store = "'i \<rightharpoonup> 'v"

definition put ::
  "('i, 'v) object_store \<Rightarrow> 'i \<Rightarrow> 'v \<Rightarrow> store_error option \<times> ('i, 'v) object_store" where
  "put store objectId v =
     (case store objectId of
        Some old \<Rightarrow> (Some DuplicateWriteError, store)
      | None \<Rightarrow> (None, store(objectId \<mapsto> v)))"

text \<open>
  Modelled from the spec: a run of \<open>put\<close> calls on the store, one after the other, each
  on the store the one before left.
\<close>

fun puts :: "('i, 'v) object_store \<Rightarrow> ('i \<times> 'v) list \<Rightarrow> ('i, 'v) object_store" where
  "puts store [] = store"
| "puts store ((objectId, v) # calls) = puts (snd (put store objectId v)) calls"

section \<open>Properties\<close>

subsection \<open>Dictionaries\<close>

lemma map_of_iadd: "map_of (iadd r k v) = (map_of r)(k \<mapsto> getitem0 r k + v)"
  by (simp add: iadd_def update_conv')

lemma getitem0_iadd: "getitem0 (iadd r k v) k' = (if k' = k then getitem0 r k + v else getitem0 r k')"
  by (simp add: getitem0_def map_of_iadd)

lemma keys_iadd: "set (keys (iadd r k v)) = insert k (set (keys r))"
  using dom_update[of k "getitem0 r k + v" r] by (simp add: iadd_def keys_def)

lemma distinct_iadd: "distinct (keys r) \<Longrightarrow> distinct (keys (iadd r k v))"
  by (simp add: iadd_def keys_def distinct_update)

lemma in_keys_map_of: "k \<in> set (keys r) \<Longrightarrow> map_of r k = Some (getitem0 r k)"
proof -
  assume "k \<in> set (keys r)"
  then have "map_of r k \<noteq> None" by (simp add: keys_def map_of_eq_None_iff)
  then show ?thesis by (auto simp: getitem0_def)
qed

lemma dom_map_of_keys: "dom (map_of r) = set (keys r)"
  by (simp add: keys_def dom_map_of_conv_image_fst)

subsection \<open>sum_by_key\<close>

text \<open>
  The inner loop returns when the keys it is given are keys of \<open>d\<close>, and adds to each of
  them the value \<open>d\<close> binds it to.
\<close>

lemma for_key_returns:
  "set ks \<subseteq> set (keys d) \<Longrightarrow> distinct ks \<Longrightarrow> distinct (keys r) \<Longrightarrow>
   \<exists>r'. for_key d ks r = Inr r' \<and> distinct (keys r') \<and>
        set (keys r') = set (keys r) \<union> set ks \<and>
        (\<forall>k. getitem0 r' k = getitem0 r k + (if k \<in> set ks then getitem0 d k else 0))"
proof (induction ks arbitrary: r)
  case Nil
  then show ?case by simp
next
  case (Cons key ks)
  from Cons.prems(1) have "key \<in> set (keys d)" by simp
  then have "map_of d key \<noteq> None"
    by (simp add: keys_def map_of_eq_None_iff)
  then obtain v where v: "map_of d key = Some v" by blast
  have g: "getitem0 d key = v" using v by (simp add: getitem0_def)
  from Cons.prems have p: "set ks \<subseteq> set (keys d)" "distinct ks" "key \<notin> set ks" by simp_all
  from Cons.IH[OF p(1) p(2) distinct_iadd[OF Cons.prems(3)], of key v]
  obtain r' where r': "for_key d ks (iadd r key v) = Inr r'" "distinct (keys r')"
      "set (keys r') = set (keys (iadd r key v)) \<union> set ks"
      "\<forall>k. getitem0 r' k = getitem0 (iadd r key v) k + (if k \<in> set ks then getitem0 d k else 0)"
    by blast
  have "for_key d (key # ks) r = Inr r'" using v r'(1) by (simp add: d_get_def)
  moreover have "set (keys r') = set (keys r) \<union> set (key # ks)"
    using r'(3) by (simp add: keys_iadd)
  moreover have "\<forall>k. getitem0 r' k = getitem0 r k + (if k \<in> set (key # ks) then getitem0 d k else 0)"
    using r'(4) p(3) g by (auto simp: getitem0_iadd)
  ultimately show ?case using r'(2) by blast
qed

lemma for_d_returns:
  "\<forall>d\<in>set dicts. distinct (keys d) \<Longrightarrow> distinct (keys r) \<Longrightarrow>
   \<exists>r'. for_d dicts r = Inr r' \<and> distinct (keys r') \<and>
        set (keys r') = set (keys r) \<union> (\<Union>d\<in>set dicts. set (keys d)) \<and>
        (\<forall>k. getitem0 r' k = getitem0 r k + sum_list (map (\<lambda>d. getitem0 d k) dicts))"
proof (induction dicts arbitrary: r)
  case Nil
  then show ?case by simp
next
  case (Cons d dicts)
  from Cons.prems(1) have dd: "distinct (keys d)" and rest: "\<forall>d\<in>set dicts. distinct (keys d)"
    by simp_all
  have notin: "getitem0 d k = 0" if "k \<notin> set (keys d)" for k
    using that by (simp add: getitem0_def keys_def map_of_eq_None_iff[THEN iffD2])
  from for_key_returns[OF subset_refl dd Cons.prems(2)]
  obtain r1 where r1: "for_key d (keys d) r = Inr r1" "distinct (keys r1)"
      "set (keys r1) = set (keys r) \<union> set (keys d)"
      "\<forall>k. getitem0 r1 k = getitem0 r k + (if k \<in> set (keys d) then getitem0 d k else 0)"
    by blast
  from r1(4) notin have g1: "\<forall>k. getitem0 r1 k = getitem0 r k + getitem0 d k" by simp
  from Cons.IH[OF rest r1(2)]
  obtain r' where r': "for_d dicts r1 = Inr r'" "distinct (keys r')"
      "set (keys r') = set (keys r1) \<union> (\<Union>d\<in>set dicts. set (keys d))"
      "\<forall>k. getitem0 r' k = getitem0 r1 k + sum_list (map (\<lambda>d. getitem0 d k) dicts)"
    by blast
  have "for_d (d # dicts) r = Inr r'" using r1(1) r'(1) by simp
  moreover have "set (keys r') = set (keys r) \<union> (\<Union>d\<in>set (d # dicts). set (keys d))"
    using r'(3) r1(3) by auto
  moreover have "\<forall>k. getitem0 r' k = getitem0 r k + sum_list (map (\<lambda>d. getitem0 d k) (d # dicts))"
    using r'(4) g1 by simp
  ultimately show ?case using r'(2) by blast
qed

lemma sum_containing:
  "sum_list (map (\<lambda>d. the (map_of d k)) (filter (\<lambda>d. k \<in> set (keys d)) dicts))
     = sum_list (map (\<lambda>d. getitem0 d k) dicts)"
proof (induction dicts)
  case Nil
  then show ?case by simp
next
  case (Cons d dicts)
  show ?case
  proof (cases "k \<in> set (keys d)")
    case True
    then have "map_of d k \<noteq> None" by (simp add: keys_def map_of_eq_None_iff)
    then have "the (map_of d k) = getitem0 d k" by (auto simp: getitem0_def)
    with True Cons show ?thesis by simp
  next
    case False
    then have "getitem0 d k = 0"
      by (simp add: getitem0_def keys_def map_of_eq_None_iff[THEN iffD2])
    with False Cons show ?thesis by simp
  qed
qed



text \<open>
  C1: for every finite sequence of dictionaries mapping keys to integers, \<open>sum_by_key\<close>
  applied to that sequence returns a mapping (a \<^verbatim>\<open>dict\<close>) whose key set is the union of
  the input dictionaries' key sets, and which maps each key to the sum of the values bound
  to that key in every input dictionary that contains it.  That the keys of each input are
  distinct is what makes the association list a dictionary.
\<close>

theorem sum_by_key_sums:
  assumes "list_all (\<lambda>d. distinct (keys d)) dicts"
  shows "\<exists>result. sum_by_key dicts = Inr result \<and> isinstance result TDict \<and>
           dom (mapping_of result) = (\<Union>d\<in>set dicts. set (keys d)) \<and>
           (\<forall>k\<in>dom (mapping_of result).
              mapping_of result k =
                Some (sum_list (map (\<lambda>d. the (map_of d k))
                                    (filter (\<lambda>d. k \<in> set (keys d)) dicts))))"
proof -
  from assms have wf: "\<forall>d\<in>set dicts. distinct (keys d)" by (simp add: list_all_iff)
  have e: "distinct (keys ([] :: 'a dict))" by (simp add: keys_def)
  from for_d_returns[OF wf e]
  obtain r where r: "for_d dicts [] = Inr r"
      "set (keys r) = (\<Union>d\<in>set dicts. set (keys d))"
      "\<forall>k. getitem0 r k = sum_list (map (\<lambda>d. getitem0 d k) dicts)"
    by (auto simp: keys_def getitem0_def)
  have s: "sum_by_key dicts = Inr (PyDict DefaultDictC r)"
    using r(1) by (simp add: sum_by_key_def)
  have d: "dom (mapping_of (PyDict DefaultDictC r)) = (\<Union>d\<in>set dicts. set (keys d))"
    using r(2) by (simp add: dom_map_of_keys)
  have v: "mapping_of (PyDict DefaultDictC r) k =
        Some (sum_list (map (\<lambda>d. the (map_of d k)) (filter (\<lambda>d. k \<in> set (keys d)) dicts)))"
    if "k \<in> dom (mapping_of (PyDict DefaultDictC r))" for k
  proof -
    from that have "k \<in> set (keys r)" by (simp add: dom_map_of_keys)
    then have "map_of r k = Some (getitem0 r k)" by (rule in_keys_map_of)
    then show ?thesis using r(3) by (simp add: sum_containing)
  qed
  from s d v show ?thesis by (intro exI[of _ "PyDict DefaultDictC r"]) simp
qed

theorem sum_by_key_sums_witness:
  "list_all (\<lambda>d. distinct (keys d)) [[(''x'', 1)], [(''x'', 2)], [(''y'', 5 :: int)]] \<and>
   (\<exists>result. sum_by_key [[(''x'', 1)], [(''x'', 2)], [(''y'', 5)]] = Inr result \<and>
      isinstance result TDict \<and>
      dom (mapping_of result) = {''x'', ''y''} \<and>
      mapping_of result ''x'' = Some 3 \<and> mapping_of result ''y'' = Some 5)"
proof -
  let ?dicts = "[[(''x'', 1)], [(''x'', 2)], [(''y'', 5 :: int)]]"
  have h: "list_all (\<lambda>d. distinct (keys d)) ?dicts" by (simp add: keys_def)
  from sum_by_key_sums[OF h]
  obtain result where r: "sum_by_key ?dicts = Inr result" "isinstance result TDict"
     "dom (mapping_of result) = (\<Union>d\<in>set ?dicts. set (keys d))"
     "\<forall>k\<in>dom (mapping_of result).
              mapping_of result k =
                Some (sum_list (map (\<lambda>d. the (map_of d k))
                                    (filter (\<lambda>d. k \<in> set (keys d)) ?dicts)))"
    by blast
  from r(3) have dm: "dom (mapping_of result) = {''x'', ''y''}" by (auto simp: keys_def)
  from dm r(4) have "mapping_of result ''x'' = Some 3" by (simp add: keys_def)
  moreover from dm r(4) have "mapping_of result ''y'' = Some 5" by (simp add: keys_def)
  ultimately show ?thesis using h r(1,2) dm by blast
qed

text \<open>
  C3: \<open>sum_by_key\<close> applied to the three dictionaries \<^verbatim>\<open>{"x":1}\<close>, \<^verbatim>\<open>{"x":2}\<close>,
  \<^verbatim>\<open>{"y":5}\<close>, in that order, returns a mapping equal to \<^verbatim>\<open>{"x": 3, "y": 5}\<close>.
\<close>

theorem sum_by_key_example:
  "\<exists>result. sum_by_key [[(''x'', 1)], [(''x'', 2)], [(''y'', 5)]] = Inr result \<and>
     isinstance result TDict \<and> mapping_of result = [''x'' \<mapsto> 3, ''y'' \<mapsto> 5]"
proof -
  have "sum_by_key [[(''x'', 1)], [(''x'', 2)], [(''y'', 5)]]
          = Inr (PyDict DefaultDictC [(''x'', 3), (''y'', 5)])"
    by (simp add: sum_by_key_def keys_def d_get_def iadd_def getitem0_def)
  moreover have "map_of [(''x'', 3), (''y'', 5::int)] = [''x'' \<mapsto> 3, ''y'' \<mapsto> 5]"
    by (auto simp: fun_eq_iff)
  ultimately show ?thesis by simp
qed

subsection \<open>count_words and count_words_fast\<close>

text \<open>
  C2: \<open>count_words\<close> applied to the literal string \<^verbatim>\<open>"a a b"\<close> returns a mapping equal to
  \<^verbatim>\<open>{"a": 2, "b": 1}\<close>.
\<close>

theorem count_words_example:
  "isinstance (count_words ''a a b'') TDict \<and>
   mapping_of (count_words ''a a b'') = [''a'' \<mapsto> 2, ''b'' \<mapsto> 1]"
proof -
  have "str_split ''a a b'' = [''a'', ''a'', ''b'']"
    by (simp add: str_split_def isspace_def)
  then have "count_words ''a a b'' = PyDict CounterC [(''a'', 2), (''b'', 1)]"
    by (simp add: count_words_def Counter_def getitem0_def)
  moreover have "map_of [(''a'', 2), (''b'', 1::int)] = [''a'' \<mapsto> 2, ''b'' \<mapsto> 1]"
    by (auto simp: fun_eq_iff)
  ultimately show ?thesis by simp
qed

lemma for_k_keys: "set (keys (for_k counter s)) = set (keys counter) \<union> (\<lambda>c. [c]) ` set s"
  by (induction s arbitrary: counter) (auto simp: keys_iadd)

lemma for_k_count:
  "getitem0 (for_k counter s) [c] = getitem0 counter [c] + int (count_list s c)"
  by (induction s arbitrary: counter) (auto simp: getitem0_iadd)

text \<open>
  C8: for every string \<open>s\<close>, \<open>count_words_fast s\<close> returns a mapping from single
  characters to counts: its key set is the set of the characters occurring in \<open>s\<close>
  (whitespace characters as well), and each character is mapped to the number of its
  occurrences in \<open>s\<close>.  So there is a string, \<^verbatim>\<open>"aa b"\<close>, on which \<open>count_words_fast\<close> and
  \<open>count_words\<close> return different mappings.
\<close>

theorem count_words_fast_counts_characters:
  "isinstance (count_words_fast s) TDict \<and>
   dom (mapping_of (count_words_fast s)) = (\<lambda>c. [c]) ` set s \<and>
   (\<forall>c\<in>set s. mapping_of (count_words_fast s) [c] = Some (int (count_list s c))) \<and>
   mapping_of (count_words_fast ''aa b'') \<noteq> mapping_of (count_words ''aa b'')"
proof -
  have k: "set (keys (for_k [] s)) = (\<lambda>c. [c]) ` set s"
    by (simp add: for_k_keys) (simp add: keys_def)
  have d: "dom (mapping_of (count_words_fast s)) = (\<lambda>c. [c]) ` set s"
    by (simp add: count_words_fast_def dom_map_of_keys k)
  have v: "mapping_of (count_words_fast s) [c] = Some (int (count_list s c))" if "c \<in> set s" for c
  proof -
    from that k have "[c] \<in> set (keys (for_k [] s))" by simp
    then have "map_of (for_k [] s) [c] = Some (getitem0 (for_k [] s) [c])"
      by (rule in_keys_map_of)
    then show ?thesis by (simp add: count_words_fast_def for_k_count) (simp add: getitem0_def)
  qed
  have "mapping_of (count_words_fast ''aa b'') ''aa'' = None"
    by (simp add: count_words_fast_def iadd_def getitem0_def)
  moreover have "str_split ''aa b'' = [''aa'', ''b'']"
    by (simp add: str_split_def isspace_def)
  then have "mapping_of (count_words ''aa b'') ''aa'' = Some 1"
    by (simp add: count_words_def Counter_def getitem0_def)
  ultimately have ne: "mapping_of (count_words_fast ''aa b'') \<noteq> mapping_of (count_words ''aa b'')"
    by (metis option.distinct(1))
  from d v ne show ?thesis by (simp add: count_words_fast_def)
qed

theorem count_words_fast_counts_characters_witness:
  "CHR '' '' \<in> set ''aa b'' \<and> mapping_of (count_words_fast ''aa b'') '' '' = Some 1 \<and>
   mapping_of (count_words_fast ''aa b'') ''a'' = Some 2 \<and>
   dom (mapping_of (count_words_fast ''aa b'')) = {''a'', '' '', ''b''}"
proof -
  have m: "CHR '' '' \<in> set ''aa b''" "CHR ''a'' \<in> set ''aa b''" by simp_all
  have i: "(\<lambda>c. [c]) ` set ''aa b'' = {''a'', '' '', ''b''}" by simp
  from count_words_fast_counts_characters [of "''aa b''"]
  have d: "dom (mapping_of (count_words_fast ''aa b'')) = (\<lambda>c. [c]) ` set ''aa b''"
    and v: "\<forall>c\<in>set ''aa b''. mapping_of (count_words_fast ''aa b'') [c] = Some (int (count_list ''aa b'' c))"
    by blast+
  from v m(1) have "mapping_of (count_words_fast ''aa b'') '' '' = Some (int (count_list ''aa b'' CHR '' ''))"
    by blast
  moreover from v m(2) have "mapping_of (count_words_fast ''aa b'') ''a'' = Some (int (count_list ''aa b'' CHR ''a''))"
    by blast
  ultimately show ?thesis using m(1) d i by simp
qed

subsection \<open>map_reduce2\<close>

text \<open>
  C9: for every sequence of input strings, \<open>map_reduce2\<close> returns the integer \<open>1\<close>,
  whatever the inputs and the counter it computes from them are.
\<close>

theorem map_reduce2_returns_1: "map_reduce2 data = PyInt 1"
  by (simp add: map_reduce2_def)

subsection \<open>Declared outputs and returned values\<close>

text \<open>
  C4: \<open>load_textfile\<close> declares two outputs, \<^verbatim>\<open>[str, int]\<close>, and for every string \<open>s\<close>
  that is the contents of the file it reads it returns a sequence of exactly two values,
  as many as the outputs it declares: the first value is \<open>s\<close> and the second the length
  of \<open>s\<close>.
\<close>

theorem load_textfile_two_outputs:
  assumes "files url = Some s"
  shows "outputs load_textfile_sig = [Some TStr, Some TInt] \<and>
         (\<exists>vs. load_textfile files url = Inr (PyTuple vs) \<and>
               length vs = length (outputs load_textfile_sig) \<and> length vs = 2 \<and>
               vs ! 0 = PyStr s \<and> vs ! 1 = PyInt (int (length s)))"
  using assms by (simp add: load_textfile_def load_textfile_sig_def distributed_def)

theorem load_textfile_two_outputs_witness:
  "[''book.txt'' \<mapsto> ''a a b''] ''book.txt'' = Some ''a a b'' \<and>
   (\<exists>vs :: string pyobj list.
      load_textfile [''book.txt'' \<mapsto> ''a a b''] ''book.txt'' = Inr (PyTuple vs) \<and>
      length vs = 2 \<and> vs ! 0 = PyStr ''a a b'' \<and> vs ! 1 = PyInt 5)"
  using load_textfile_two_outputs
          [of "[''book.txt'' \<mapsto> ''a a b'']" "''book.txt''" "''a a b''", where ?'a = string]
  by auto










subsection \<open>Variadic signatures\<close>

lemma accepts_variadic: "accepts [Some t, None] args = (\<exists>n. args = replicate (Suc n) t)"
proof
  assume "accepts [Some t, None] args"
  then have ne: "args \<noteq> []" and all: "\<forall>a\<in>set args. a = t" by (simp_all add: list_all_iff)
  from all have "args = replicate (length args) t"
    by (simp add: replicate_length_same)
  moreover from ne obtain n where "length args = Suc n" by (cases args) auto
  ultimately show "\<exists>n. args = replicate (Suc n) t" by metis
next
  assume "\<exists>n. args = replicate (Suc n) t"
  then obtain n where "args = replicate (Suc n) t" ..
  then show "accepts [Some t, None] args" by (simp add: list_all_iff)
qed

text \<open>
  C5: each of the variadic functions of the example (\<open>sum_by_key\<close>,
  \<open>sum_by_key_return_len\<close>, \<open>map_reduce\<close>, \<open>map_reduce2\<close>) declares its input signature
  with the placeholder \<^verbatim>\<open>None\<close> in the last position and exactly one type before it, which
  means that this type repeats for zero or more additional trailing arguments: a call is
  accepted exactly when it has one or more arguments, all of that type.
\<close>

theorem variadic_signatures:
  "(last (inputs sum_by_key_sig) = None \<and> butlast (inputs sum_by_key_sig) = [Some TDict]) \<and>
   (last (inputs sum_by_key_return_len_sig) = None \<and>
      butlast (inputs sum_by_key_return_len_sig) = [Some TDict]) \<and>
   (last (inputs map_reduce_sig) = None \<and> butlast (inputs map_reduce_sig) = [Some TStr]) \<and>
   (last (inputs map_reduce2_sig) = None \<and> butlast (inputs map_reduce2_sig) = [Some TStr]) \<and>
   accepts (inputs sum_by_key_sig) args = (\<exists>n. args = replicate (Suc n) TDict) \<and>
   accepts (inputs sum_by_key_return_len_sig) args = (\<exists>n. args = replicate (Suc n) TDict) \<and>
   accepts (inputs map_reduce_sig) args = (\<exists>n. args = replicate (Suc n) TStr) \<and>
   accepts (inputs map_reduce2_sig) args = (\<exists>n. args = replicate (Suc n) TStr)"
proof -
  have i: "inputs sum_by_key_sig = [Some TDict, None]"
      "inputs sum_by_key_return_len_sig = [Some TDict, None]"
      "inputs map_reduce_sig = [Some TStr, None]"
      "inputs map_reduce2_sig = [Some TStr, None]"
    by (simp_all add: sum_by_key_sig_def sum_by_key_return_len_sig_def map_reduce_sig_def
          map_reduce2_sig_def distributed_def)
  show ?thesis unfolding i accepts_variadic by simp
qed

subsection \<open>The Object Store is single-assignment\<close>

lemma put_keeps: "store objectId = Some v \<Longrightarrow> snd (put store i w) objectId = Some v"
  by (auto simp: put_def split: option.splits)

lemma puts_keeps: "store objectId = Some v \<Longrightarrow> puts store calls objectId = Some v"
proof (induction calls arbitrary: store)
  case Nil
  then show ?case by simp
next
  case (Cons c calls)
  obtain i w where c: "c = (i, w)" by (cases c)
  from Cons.prems have "snd (put store i w) objectId = Some v" by (rule put_keeps)
  then show ?case unfolding c by (simp add: Cons.IH)
qed

text \<open>
  C7: for every object identifier, \<open>put\<close> succeeds at most once: once a \<open>put\<close> has
  stored a value for an identifier, every later \<open>put\<close> on that identifier, after any run
  of other \<open>put\<close> calls, fails with \<open>DuplicateWriteError\<close> and leaves the store, and so the
  stored value, as it was.
\<close>

theorem put_succeeds_at_most_once:
  assumes "put store0 objectId v = (None, store1)"
  shows "put (puts store1 calls) objectId v' = (Some DuplicateWriteError, puts store1 calls) \<and>
         puts store1 calls objectId = Some v"
proof -
  from assms have "store1 objectId = Some v"
    by (auto simp: put_def split: option.splits)
  then have "puts store1 calls objectId = Some v" by (rule puts_keeps)
  then show ?thesis by (simp add: put_def)
qed

theorem put_succeeds_at_most_once_witness:
  "put Map.empty (7::nat) ''a'' = (None, [7 \<mapsto> ''a'']) \<and>
   put (puts [7 \<mapsto> ''a''] [(7, ''b''), (8, ''c'')]) (7::nat) ''d''
     = (Some DuplicateWriteError, puts [7 \<mapsto> ''a''] [(7, ''b''), (8, ''c'')]) \<and>
   puts [7 \<mapsto> ''a''] [(7, ''b''), (8, ''c'')] (7::nat) = Some ''a''"
proof -
  have h: "put Map.empty (7::nat) ''a'' = (None, [7 \<mapsto> ''a''])" by (simp add: put_def)
  from put_succeeds_at_most_once[OF h, of "[(7, ''b''), (8, ''c'')]" "''d''"] h
  show ?thesis by blast
qed

subsection \<open>split_partitions returns a partition of the indices\<close>

text \<open>
  The inner loop returns, and moves every element of \<open>head\<close> to \<open>part\<close> or to \<open>tail\<close>.
\<close>

lemma while_head_mset:
  "\<forall>e\<in>set head. e < length sizes \<Longrightarrow>
   \<exists>part' tail'. while_head sizes ps head cur part tail = Inr (part', tail') \<and>
      mset part' + mset tail' = mset part + mset tail + mset head \<and>
      set tail' \<subseteq> set tail \<union> set head"
proof (induction sizes ps head cur part tail rule: while_head.induct)
  case (1 sizes ps head cur part tail)
  show ?case
  proof (cases "head = []")
    case True
    then show ?thesis by (subst while_head.simps) simp
  next
    case False
    then have hd: "butlast head @ [last head] = head" by simp
    from "1.prems" False have inr: "last head < length sizes"
      by simp
    from "1.prems" have rest: "\<forall>e\<in>set (butlast head). e < length sizes"
      by (auto dest: in_set_butlastD)
    have ms: "mset head = mset (butlast head) + {#last head#}"
      by (subst hd [symmetric]) (simp del: append_butlast_last_id)
    have st: "set head = insert (last head) (set (butlast head))"
      by (subst hd [symmetric]) (simp del: append_butlast_last_id)
    from False have pos: "0 < length head" by simp
    show ?thesis
    proof (cases "sizes ! (last head) \<le> ps - cur")
      case True
      from "1.IH"(1)[OF pos inr True rest]
      obtain part' tail' where
        "while_head sizes ps (butlast head) (cur + sizes ! last head) (part @ [last head]) tail = Inr (part', tail')"
        "mset part' + mset tail' = mset (part @ [last head]) + mset tail + mset (butlast head)"
        "set tail' \<subseteq> set tail \<union> set (butlast head)"
        by auto
      then show ?thesis using False inr True ms st
        by (subst while_head.simps) auto
    next
      case F2: False
      from "1.IH"(2)[OF pos inr F2 rest]
      obtain part' tail' where
        "while_head sizes ps (butlast head) cur part (tail @ [last head]) = Inr (part', tail')"
        "mset part' + mset tail' = mset part + mset (tail @ [last head]) + mset (butlast head)"
        "set tail' \<subseteq> set (tail @ [last head]) \<union> set (butlast head)"
        by auto
      then show ?thesis using False inr F2 ms st
        by (subst while_head.simps) auto
    qed
  qed
qed

lemma mset_concat_update:
  "i < length xss \<Longrightarrow> mset (concat (xss[i := ys])) + mset (xss ! i) = mset (concat xss) + mset ys"
proof (induction xss arbitrary: i)
  case Nil
  then show ?case by simp
next
  case (Cons xs xss)
  then show ?case by (cases i) (auto simp: ac_simps)
qed

lemma for_partition_mset:
  "\<forall>e\<in>set head. e < length sizes \<Longrightarrow> \<forall>p\<in>set ps. p < length result \<Longrightarrow>
   \<exists>head' result'. for_partition sizes psz ps head result = Inr (head', result') \<and>
      length result' = length result \<and>
      mset head' + mset (concat result') = mset head + mset (concat result)"
proof (induction ps arbitrary: head result)
  case Nil
  then show ?case by simp
next
  case (Cons p ps)
  from Cons.prems have p: "p < length result" by simp
  from while_head_mset[OF Cons.prems(1), of psz 0 "result ! p" "[]"]
  obtain part tail where
    w: "while_head sizes psz head 0 (result ! p) [] = Inr (part, tail)" and
    m: "mset part + mset tail = mset (result ! p) + mset head" and
    s: "set tail \<subseteq> set head"
    by auto
  have t: "\<forall>e\<in>set (rev tail). e < length sizes"
    using s Cons.prems(1) by auto
  have l: "\<forall>q\<in>set ps. q < length (result[p := part])"
    using Cons.prems(2) by simp
  from Cons.IH[OF t l]
  obtain head' result' where
    f: "for_partition sizes psz ps (rev tail) (result[p := part]) = Inr (head', result')" and
    len: "length result' = length result" and
    m2: "mset head' + mset (concat result') = mset (rev tail) + mset (concat (result[p := part]))"
    by auto
  have "mset head' + mset (concat result') + mset (result ! p)
        = mset tail + (mset (concat (result[p := part])) + mset (result ! p))"
    using m2 by simp
  also have "\<dots> = mset tail + (mset (concat result) + mset part)"
    by (simp only: mset_concat_update[OF p])
  also have "\<dots> = (mset part + mset tail) + mset (concat result)"
    by simp
  also have "\<dots> = (mset head + mset (concat result)) + mset (result ! p)"
    by (simp only: m) simp
  finally have "mset head' + mset (concat result') = mset head + mset (concat result)"
    by simp
  with f len w p show ?case by simp
qed

lemma concat_nth_unique:
  "distinct (concat xss) \<Longrightarrow> i < length xss \<Longrightarrow> j < length xss \<Longrightarrow>
   x \<in> set (xss ! i) \<Longrightarrow> x \<in> set (xss ! j) \<Longrightarrow> i = j"
proof (induction xss arbitrary: i j)
  case Nil
  then show ?case by simp
next
  case (Cons xs xss)
  show ?case
  proof (cases i)
    case 0
    show ?thesis
    proof (cases j)
      case (Suc j')
      with Cons.prems 0 have "x \<in> set xs" "x \<in> set (xss ! j')" "j' < length xss" by simp_all
      then have "x \<in> set xs \<inter> \<Union> (set ` set xss)" by auto
      with Cons.prems(1) show ?thesis by auto
    qed (simp add: 0)
  next
    case (Suc i')
    show ?thesis
    proof (cases j)
      case 0
      with Cons.prems Suc have "x \<in> set xs" "x \<in> set (xss ! i')" "i' < length xss" by simp_all
      then have "x \<in> set xs \<inter> \<Union> (set ` set xss)" by auto
      with Cons.prems(1) show ?thesis by auto
    next
      case Sj: (Suc j')
      with Cons.prems Suc Cons.IH[of i' j'] show ?thesis by simp
    qed
  qed
qed

lemma split_partitions_mset:
  assumes "1 \<le> num_partitions"
  shows "\<exists>result. split_partitions sizes num_partitions = Inr result \<and>
           length result = nat num_partitions \<and>
           mset (concat result) = mset [0..<length sizes]"
proof -
  let ?perm = "sort_key (\<lambda>k. sizes ! k) [0..<length sizes]"
  let ?res = "replicate (nat (num_partitions - 1)) ([]::nat list)"
  let ?psz = "(sum_list sizes + num_partitions - 1) div num_partitions"
  have h: "\<forall>e\<in>set ?perm. e < length sizes" by simp
  have r: "\<forall>p\<in>set [0..<length ?res]. p < length ?res" by simp
  from for_partition_mset[OF h r, of ?psz]
  obtain head' result' where
    f: "for_partition sizes ?psz [0..<length ?res] ?perm ?res = Inr (head', result')" and
    len: "length result' = length ?res" and
    m: "mset head' + mset (concat result') = mset ?perm + mset (concat ?res)"
    by blast
  have c: "concat ?res = []" by simp
  have "mset (concat (result' @ [head'])) = mset head' + mset (concat result')" by simp
  also have "\<dots> = mset [0..<length sizes]" using m c by simp
  finally have m': "mset (concat (result' @ [head'])) = mset [0..<length sizes]" .
  have l': "length (result' @ [head']) = nat num_partitions" using len assms by simp
  have "split_partitions sizes num_partitions = Inr (result' @ [head'])"
    using assms f by (simp add: split_partitions_def)
  with m' l' show ?thesis by blast
qed

text \<open>
  C10: for every list of non-negative integer sizes and every integer
  \<open>num_partitions \<ge> 1\<close>, \<open>split_partitions sizes num_partitions\<close> returns a list of exactly
  \<open>num_partitions\<close> lists that together are a partition of the index set
  \<open>{0, ..., len(sizes) - 1}\<close>: every index is in exactly one of the returned lists (and
  once in it), and the lists hold nothing else.
\<close>

theorem split_partitions_partition:
  assumes "list_all (\<lambda>s. 0 \<le> s) sizes" and "1 \<le> num_partitions"
  shows "\<exists>result. split_partitions sizes num_partitions = Inr result \<and>
           int (length result) = num_partitions \<and>
           (\<forall>i<length sizes. \<exists>!j. j < length result \<and> i \<in> set (result ! j)) \<and>
           (\<forall>j<length result. distinct (result ! j) \<and> set (result ! j) \<subseteq> {0..<length sizes})"
proof -
  from split_partitions_mset[OF assms(2), of sizes]
  obtain result where
    sp: "split_partitions sizes num_partitions = Inr result" and
    len: "length result = nat num_partitions" and
    m: "mset (concat result) = mset [0..<length sizes]"
    by blast
  from m have d: "distinct (concat result)"
    by (metis distinct_upt mset_eq_imp_distinct_iff)
  from m have s: "set (concat result) = {0..<length sizes}"
    by (metis mset_eq_setD set_upt)
  have ex1: "\<exists>!j. j < length result \<and> i \<in> set (result ! j)" if "i < length sizes" for i
  proof -
    from that s have "i \<in> set (concat result)" by simp
    then obtain ys where "ys \<in> set result" "i \<in> set ys" by auto
    then obtain j where j: "j < length result" "i \<in> set (result ! j)"
      by (auto simp: in_set_conv_nth)
    show ?thesis
    proof (rule ex1I[of _ j])
      show "j < length result \<and> i \<in> set (result ! j)" using j by simp
    next
      fix k assume "k < length result \<and> i \<in> set (result ! k)"
      with j d show "k = j" by (blast intro: concat_nth_unique)
    qed
  qed
  have each: "distinct (result ! j) \<and> set (result ! j) \<subseteq> {0..<length sizes}"
    if "j < length result" for j
  proof -
    from that have mem: "result ! j \<in> set result" by simp
    with d have "distinct (result ! j)" by (simp add: distinct_concat_iff)
    moreover from mem have "set (result ! j) \<subseteq> set (concat result)" by auto
    ultimately show ?thesis using s by simp
  qed
  from len assms(2) have "int (length result) = num_partitions" by simp
  with sp ex1 each show ?thesis by blast
qed

theorem split_partitions_partition_witness:
  "list_all (\<lambda>s. 0 \<le> s) [3, 1, 2 :: int] \<and> (1::int) \<le> 2 \<and>
   (\<exists>result. split_partitions [3, 1, 2] 2 = Inr result \<and>
           int (length result) = 2 \<and>
           (\<forall>i<length [3, 1, 2 :: int]. \<exists>!j. j < length result \<and> i \<in> set (result ! j)) \<and>
           (\<forall>j<length result. distinct (result ! j) \<and> set (result ! j) \<subseteq> {0..<length [3, 1, 2 :: int]}))"
  using split_partitions_partition [of "[3, 1, 2]" 2] by simp

end
